theory Spec2Isabelle
  imports Main "HOL-Library.Word"
begin

unbundle bit_operations_syntax

section \<open>Data model of \<open>rb.c\<close>\<close>

text \<open>
  The ring buffer of \<open>rb.c\<close>: five \<open>uint32_t\<close> fields and a byte array. The fields are
  32-bit words, so \<open>+\<close> and \<open>-\<close> wrap modulo \<open>2 ^ 32\<close> and \<open><\<close> is the unsigned comparison,
  as in C. The record fields carry the prefix \<open>r_\<close> (\<open>r->in\<close> is \<open>r_in r\<close>), because \<open>in\<close>,
  \<open>size\<close> and \<open>mask\<close> are taken in HOL. The byte array \<open>data\<close> is the list of its bytes:
  \<open>RB_BUF_LEN\<close> of them in the static build, the allocated block in the
  \<open>__DYNAMIC_MALLOC__\<close> build.
\<close>

type_synonym u8 = "8 word"
type_synonym u32 = "32 word"

record ringbuffer =
  r_in :: u32
  r_out :: u32
  r_mask :: u32
  r_size :: u32
  r_esize :: u32
  r_data :: "u8 list"

text \<open>The macro \<open>#define min(a, b) ((a) < (b)? (a): (b))\<close>, used on \<open>uint32_t\<close> only.\<close>

definition min_u32 :: "u32 \<Rightarrow> u32 \<Rightarrow> u32" where
  "min_u32 a b = (if a < b then a else b)"

text \<open>
  \<open>memcpy (dst + d, src + s, n)\<close> on byte arrays given as lists. The result is the new
  content of the destination array. A copy that leaves either array is undefined behaviour
  in C; the model returns \<open>None\<close> there, and every caller passes it on.
\<close>

definition memcpy :: "u8 list \<Rightarrow> nat \<Rightarrow> u8 list \<Rightarrow> nat \<Rightarrow> nat \<Rightarrow> u8 list option" where
  "memcpy dst d src s n =
     (if d + n \<le> length dst \<and> s + n \<le> length src
      then Some (take d dst @ take n (drop s src) @ drop (d + n) dst)
      else None)"

section \<open>Construction\<close>

text \<open>
  \<open>roundup_pow_of_two\<close> (dynamic build only). The loop runs \<open>i\<close> from 31 down to 0 and
  leaves with the last value of \<open>mask = 1 << i\<close>; \<open>roundup_loop len i\<close> is that value for
  the iterations from \<open>i\<close> downwards. The C variable \<open>mask\<close> is an \<open>int\<close>; the model keeps
  its 32-bit pattern, so \<open>1 << 31\<close> and the final \<open>mask << 1\<close> wrap as they do on
  two's-complement targets.
\<close>

fun roundup_loop :: "u32 \<Rightarrow> nat \<Rightarrow> u32" where
  "roundup_loop len 0 = push_bit 0 1"
| "roundup_loop len (Suc i) =
     (let mask = push_bit (Suc i) 1
      in if len AND mask = mask then mask else roundup_loop len i)"

definition roundup_pow_of_two :: "u32 \<Rightarrow> u32" where
  "roundup_pow_of_two len =
     (if len AND (len - 1) = 0 then len else push_bit 1 (roundup_loop len 31))"

text \<open>
  \<open>rb_init\<close>, static build (\<open>__DYNAMIC_MALLOC__\<close> not defined). The pointer \<open>r\<close> is an
  option (\<open>None\<close> is \<open>NULL\<close>); the result is the return code and the object afterwards,
  which has been written to already when the power-of-two test fails. \<open>RB_BUF_LEN\<close> is
  defined in \<open>rb.h\<close>, which is not part of the sources at hand: it is a parameter.
\<close>

definition rb_init :: "u32 \<Rightarrow> ringbuffer option \<Rightarrow> u32 \<Rightarrow> u32 \<Rightarrow> int \<times> ringbuffer option" where
  "rb_init RB_BUF_LEN rp len esize =
     (case rp of
        None \<Rightarrow> (- 1, None)
      | Some r \<Rightarrow>
          if len = 0 \<or> esize = 0 then (- 1, Some r)
          else
            let r1 = r\<lparr>r_esize := esize, r_in := 0, r_out := 0\<rparr>;
                r2 = r1\<lparr>r_size := RB_BUF_LEN div esize\<rparr>
            in if r_size r2 AND (r_size r2 - 1) \<noteq> 0 then (- 1, Some r2)
               else (0, Some (r2\<lparr>r_mask := r_size r2 - 1\<rparr>)))"

text \<open>
  \<open>rb_init\<close>, dynamic build. \<open>alloc\<close> is what \<open>malloc (r->size)\<close> returns: \<open>None\<close> for
  \<open>NULL\<close>, otherwise the bytes of the fresh block. A \<open>NULL\<close> data pointer is modelled by
  the empty array.
\<close>

definition rb_init_dyn :: "u8 list option \<Rightarrow> ringbuffer option \<Rightarrow> u32 \<Rightarrow> u32 \<Rightarrow> int \<times> ringbuffer option" where
  "rb_init_dyn alloc rp len esize =
     (case rp of
        None \<Rightarrow> (- 1, None)
      | Some r \<Rightarrow>
          if len = 0 \<or> esize = 0 then (- 1, Some r)
          else
            let r1 = r\<lparr>r_esize := esize, r_in := 0, r_out := 0\<rparr>;
                r2 = r1\<lparr>r_size := roundup_pow_of_two (esize * len)\<rparr>
            in (case alloc of
                  None \<Rightarrow> (- 1, Some (r2\<lparr>r_data := []\<rparr>))
                | Some d \<Rightarrow> (0, Some (r2\<lparr>r_data := d, r_mask := r_size r2 - 1\<rparr>))))"

section \<open>Occupancy queries\<close>

definition rb_size :: "ringbuffer \<Rightarrow> u32" where
  "rb_size r = r_size r"

definition rb_avail :: "ringbuffer \<Rightarrow> u32" where
  "rb_avail r = r_in r - r_out r"

definition rb_unused :: "ringbuffer \<Rightarrow> u32" where
  "rb_unused r = r_size r - (r_in r - r_out r)"

text \<open>The two tests return the C truth value as a \<open>uint32_t\<close>: 1 or 0.\<close>

definition rb_is_empty :: "ringbuffer \<Rightarrow> u32" where
  "rb_is_empty r = (if r_in r = r_out r then 1 else 0)"

definition rb_is_full :: "ringbuffer \<Rightarrow> u32" where
  "rb_is_full r = (if rb_avail r > r_mask r then 1 else 0)"

section \<open>Write, read and peek\<close>

text \<open>
  \<open>rb_in\<close> returns the object afterwards and the number of bytes taken; \<open>buf\<close> is the
  caller's array. \<open>rb_out\<close> returns the object, the caller's array afterwards and the
  number of bytes delivered. \<open>rb_peek\<close> returns \<open>void\<close> and assigns to no field of \<open>r\<close>:
  the model returns the object it was given and the caller's array afterwards.
\<close>

definition rb_in :: "ringbuffer \<Rightarrow> u8 list \<Rightarrow> u32 \<Rightarrow> (ringbuffer \<times> u32) option" where
  "rb_in r buf len0 =
     (let left = rb_unused r;
          len = min_u32 len0 left;
          l = min_u32 len (r_size r - (r_in r AND r_mask r))
      in case memcpy (r_data r) (unat (r_in r AND r_mask r)) buf 0 (unat l) of
           None \<Rightarrow> None
         | Some d1 \<Rightarrow>
             (case memcpy d1 0 buf (unat l) (unat (len - l)) of
                None \<Rightarrow> None
              | Some d2 \<Rightarrow> Some (r\<lparr>r_data := d2, r_in := r_in r + len\<rparr>, len)))"

definition rb_out :: "ringbuffer \<Rightarrow> u8 list \<Rightarrow> u32 \<Rightarrow> (ringbuffer \<times> u8 list \<times> u32) option" where
  "rb_out r buf len0 =
     (let avail = rb_avail r;
          len = min_u32 len0 avail;
          l = min_u32 len (r_size r - (r_out r AND r_mask r))
      in case memcpy buf 0 (r_data r) (unat (r_out r AND r_mask r)) (unat l) of
           None \<Rightarrow> None
         | Some b1 \<Rightarrow>
             (case memcpy b1 (unat l) (r_data r) 0 (unat (len - l)) of
                None \<Rightarrow> None
              | Some b2 \<Rightarrow> Some (r\<lparr>r_out := r_out r + len\<rparr>, b2, len)))"

definition rb_peek :: "ringbuffer \<Rightarrow> u8 list \<Rightarrow> u32 \<Rightarrow> (ringbuffer \<times> u8 list) option" where
  "rb_peek r buf len0 =
     (let avail = rb_avail r;
          len = min_u32 len0 avail;
          l = min_u32 len (rb_size r - (r_out r AND r_mask r))
      in case memcpy buf 0 (r_data r) (unat (r_out r AND r_mask r)) (unat l) of
           None \<Rightarrow> None
         | Some b1 \<Rightarrow>
             (case memcpy b1 (unat l) (r_data r) 0 (unat (len - l)) of
                None \<Rightarrow> None
              | Some b2 \<Rightarrow> Some (r, b2)))"

section \<open>Call sequences, reachable states and the queue a state holds\<close>

text \<open>
  A caller's use of one buffer is a finite sequence of calls. \<open>step\<close> performs one call on
  the object and keeps two unbounded counters beside it: the bytes \<open>rb_in\<close> has reported
  as written and the bytes \<open>rb_out\<close> has reported as read. \<open>run\<close> performs a sequence and
  is \<open>None\<close> as soon as a call leaves an array.
\<close>

datatype call = Write "u8 list" u32 | Read "u8 list" u32 | Peek "u8 list" u32

fun step :: "ringbuffer \<times> nat \<times> nat \<Rightarrow> call \<Rightarrow> (ringbuffer \<times> nat \<times> nat) option" where
  "step (r, W, R) (Write buf len) =
     (case rb_in r buf len of None \<Rightarrow> None | Some (r', n) \<Rightarrow> Some (r', W + unat n, R))"
| "step (r, W, R) (Read buf len) =
     (case rb_out r buf len of None \<Rightarrow> None | Some (r', b, n) \<Rightarrow> Some (r', W, R + unat n))"
| "step (r, W, R) (Peek buf len) =
     (case rb_peek r buf len of None \<Rightarrow> None | Some (r', b) \<Rightarrow> Some (r', W, R))"

fun run :: "ringbuffer \<times> nat \<times> nat \<Rightarrow> call list \<Rightarrow> (ringbuffer \<times> nat \<times> nat) option" where
  "run s [] = Some s"
| "run s (c # cs) = (case step s c of None \<Rightarrow> None | Some s' \<Rightarrow> run s' cs)"

text \<open>
  The reachable states: what a successful \<open>rb_init\<close> of either build leaves, and what any
  call that stays inside its arrays makes of a reachable state. The static object holds
  \<open>RB_BUF_LEN\<close> bytes; the dynamic one the \<open>r->size\<close> bytes it asked \<open>malloc\<close> for.
\<close>

inductive reachable :: "ringbuffer \<Rightarrow> bool" where
  by_init:
    "rb_init RB_BUF_LEN (Some r0) len esize = (0, Some r) \<Longrightarrow>
     length (r_data r0) = unat RB_BUF_LEN \<Longrightarrow> reachable r"
| by_init_dyn:
    "rb_init_dyn (Some d) (Some r0) len esize = (0, Some r) \<Longrightarrow>
     length d = unat (r_size r) \<Longrightarrow> reachable r"
| by_write: "reachable r \<Longrightarrow> rb_in r buf len = Some (r', n) \<Longrightarrow> reachable r'"
| by_read: "reachable r \<Longrightarrow> rb_out r buf len = Some (r', buf', n) \<Longrightarrow> reachable r'"
| by_peek: "reachable r \<Longrightarrow> rb_peek r buf len = Some (r', buf') \<Longrightarrow> reachable r'"

text \<open>
  Two kinds of state turn out to be reachable. \<open>rb_ok\<close>: the capacity is a nonzero power of
  two (stated with the test \<open>rb_init\<close> itself uses), the mask is the capacity minus one, the
  array holds at least \<open>size\<close> bytes and at most \<open>size\<close> bytes are occupied.
  \<open>rb_degenerate\<close>: the capacity is 0, which the power-of-two test of \<open>rb_init\<close> lets
  through; such an object never leaves its initial state.
\<close>

definition rb_ok :: "ringbuffer \<Rightarrow> bool" where
  "rb_ok r \<longleftrightarrow>
     r_size r \<noteq> 0 \<and> r_size r AND (r_size r - 1) = 0 \<and> r_mask r = r_size r - 1 \<and>
     unat (r_size r) \<le> length (r_data r) \<and> rb_avail r \<le> r_size r"

definition rb_degenerate :: "ringbuffer \<Rightarrow> bool" where
  "rb_degenerate r \<longleftrightarrow> r_size r = 0 \<and> r_mask r = - 1 \<and> r_in r = 0 \<and> r_out r = 0"

text \<open>
  The queue a state holds, oldest byte first: the \<open>rb_avail\<close> bytes at the physical offsets
  \<open>(out + i) mod size\<close>.
\<close>

definition rb_bytes :: "ringbuffer \<Rightarrow> u8 list" where
  "rb_bytes r =
     map (\<lambda>i. r_data r ! ((unat (r_out r) + i) mod unat (r_size r))) [0..<unat (rb_avail r)]"

section \<open>A worked example\<close>

text \<open>
  Concrete objects for the examples below. \<open>blank8\<close> is an object before \<open>rb_init\<close>, with
  arbitrary fields, in a static build with \<open>RB_BUF_LEN = 8\<close>; \<open>empty8\<close> is what
  \<open>rb_init (r, 8, 1)\<close> makes of it; \<open>held6\<close> follows by writing \<open>1, \<dots>, 6\<close>; \<open>full8\<close> by
  writing \<open>7, 8, 9\<close>, of which only \<open>7, 8\<close> fit; \<open>spent6\<close> follows from \<open>held6\<close> by reading six
  bytes, and \<open>wrap4\<close> from \<open>spent6\<close> by writing \<open>21, \<dots>, 24\<close> across the end of the array.
  \<open>blank256\<close> is an object before \<open>rb_init\<close> with \<open>RB_BUF_LEN = 256\<close>, and \<open>zero_cap\<close> is
  what \<open>rb_init (r, 1, 257)\<close> makes of it.
\<close>

definition blank8 :: ringbuffer where
  "blank8 = \<lparr>r_in = 5, r_out = 7, r_mask = 9, r_size = 3, r_esize = 4,
              r_data = [0, 0, 0, 0, 0, 0, 0, 0]\<rparr>"

definition empty8 :: ringbuffer where
  "empty8 = \<lparr>r_in = 0, r_out = 0, r_mask = 7, r_size = 8, r_esize = 1,
              r_data = [0, 0, 0, 0, 0, 0, 0, 0]\<rparr>"

definition held6 :: ringbuffer where
  "held6 = \<lparr>r_in = 6, r_out = 0, r_mask = 7, r_size = 8, r_esize = 1,
             r_data = [1, 2, 3, 4, 5, 6, 0, 0]\<rparr>"

definition full8 :: ringbuffer where
  "full8 = \<lparr>r_in = 8, r_out = 0, r_mask = 7, r_size = 8, r_esize = 1,
             r_data = [1, 2, 3, 4, 5, 6, 7, 8]\<rparr>"

definition spent6 :: ringbuffer where
  "spent6 = \<lparr>r_in = 6, r_out = 6, r_mask = 7, r_size = 8, r_esize = 1,
              r_data = [1, 2, 3, 4, 5, 6, 0, 0]\<rparr>"

definition wrap4 :: ringbuffer where
  "wrap4 = \<lparr>r_in = 10, r_out = 6, r_mask = 7, r_size = 8, r_esize = 1,
             r_data = [23, 24, 3, 4, 5, 6, 21, 22]\<rparr>"

definition blank256 :: ringbuffer where
  "blank256 = \<lparr>r_in = 0, r_out = 0, r_mask = 0, r_size = 0, r_esize = 0,
                r_data = replicate 256 0\<rparr>"

definition zero_cap :: ringbuffer where
  "zero_cap = \<lparr>r_in = 0, r_out = 0, r_mask = 4294967295, r_size = 0, r_esize = 257,
                r_data = replicate 256 0\<rparr>"

text \<open>
  \<open>last8\<close> is a well-formed empty buffer of capacity 8 whose cursors are two short of
  \<open>2 ^ 32\<close>, and \<open>past8\<close> the same buffer four bytes written and three bytes read later.
\<close>

definition last8 :: ringbuffer where
  "last8 = \<lparr>r_in = 4294967294, r_out = 4294967294, r_mask = 7, r_size = 8, r_esize = 1,
             r_data = [0, 0, 0, 0, 0, 0, 0, 0]\<rparr>"

definition past8 :: ringbuffer where
  "past8 = \<lparr>r_in = 2, r_out = 1, r_mask = 7, r_size = 8, r_esize = 1,
             r_data = [3, 4, 0, 0, 0, 0, 1, 2]\<rparr>"

section \<open>Powers of two and the mask\<close>

text \<open>
  \<open>x & (x - 1)\<close> clears the lowest set bit of \<open>x\<close>, so it is 0 exactly when at most one
  bit is set. First on natural numbers, then on 32-bit words.
\<close>

lemma nat_single_bit:
  fixes n :: nat
  shows "0 < n \<Longrightarrow> n AND (n - 1) = 0 \<Longrightarrow> \<exists>k. n = 2 ^ k"
proof (induction n rule: less_induct)
  case (less n)
  show ?case
  proof (cases "even n")
    case True
    then obtain m where m: "n = 2 * m" by (auto elim: evenE)
    with less.prems have mpos: "0 < m" by simp
    have "(n - 1) div 2 = m - 1" using m mpos by auto
    moreover have "n div 2 = m" using m by simp
    ultimately have "n AND (n - 1) = 2 * (m AND (m - 1))"
      using True by (subst and_rec) simp
    with less.prems have "m AND (m - 1) = 0" by simp
    moreover have "m < n" using m mpos by simp
    ultimately obtain k where "m = 2 ^ k" using less.IH mpos by blast
    then have "n = 2 ^ Suc k" using m by simp
    then show ?thesis by blast
  next
    case False
    then obtain m where m: "n = 2 * m + 1" by (auto elim: oddE)
    have "n AND (n - 1) = 2 * m"
      using m by (subst and_rec) simp
    with less.prems have "m = 0" by simp
    then have "n = 2 ^ 0" using m by simp
    then show ?thesis by blast
  qed
qed

lemma word_single_bit:
  fixes x :: u32
  assumes "x \<noteq> 0" and "x AND (x - 1) = 0"
  shows "\<exists>k<32. x = 2 ^ k"
proof -
  have pos: "0 < unat x" using assms(1) by (simp add: unat_gt_0)
  have "unat (x AND (x - 1)) = unat x AND unat (x - 1)"
    by (simp add: unsigned_and_eq)
  also have "unat (x - 1) = unat x - 1" using assms(1) by (rule unat_minus_one)
  finally have "unat x AND (unat x - 1) = 0" using assms(2) by simp
  with pos obtain k where k: "unat x = 2 ^ k" using nat_single_bit by blast
  have "unat x < 2 ^ 32" using unsigned_less [of x] by simp
  with k have "(2::nat) ^ k < 2 ^ 32" by simp
  then have "k < 32" by (rule power_less_imp_less_exp [rotated]) simp
  moreover have "x = of_nat (unat x)" by simp
  then have "x = 2 ^ k" by (simp only: k of_nat_power of_nat_numeral)
  ultimately show ?thesis by blast
qed

lemma unat_and_pow2_minus1:
  fixes y :: u32
  shows "unat (y AND (2 ^ k - 1)) = unat y mod 2 ^ k"
proof -
  have "y AND (2 ^ k - 1) = take_bit k y"
    by (simp add: take_bit_eq_mask mask_eq_decr_exp)
  then have "unat (y AND (2 ^ k - 1)) = take_bit k (unat y)"
    by (simp only: unsigned_take_bit_eq)
  then show ?thesis by (simp only: take_bit_eq_mod)
qed

lemma pow2_and_pred:
  fixes k :: nat
  shows "(2 ^ k :: u32) AND (2 ^ k - 1) = 0"
proof -
  have "(2 ^ k :: u32) AND (2 ^ k - 1) = take_bit k (2 ^ k)"
    by (simp add: take_bit_eq_mask mask_eq_decr_exp)
  also have "\<dots> = 0"
    by (simp add: take_bit_eq_mod)
  finally show ?thesis .
qed

section \<open>The two-part copy\<close>

text \<open>
  What \<open>memcpy\<close> leaves, byte by byte, and what the two copies of \<open>rb_in\<close> and of
  \<open>rb_out\<close> add up to: a copy of \<open>n\<close> bytes to or from the offsets \<open>(p + j) mod N\<close>.
\<close>

lemma memcpy_Some:
  "d + n \<le> length dst \<Longrightarrow> s + n \<le> length src \<Longrightarrow>
   memcpy dst d src s n = Some (take d dst @ take n (drop s src) @ drop (d + n) dst)"
  by (simp add: memcpy_def)

lemma memcpy_length: "memcpy dst d src s n = Some dst' \<Longrightarrow> length dst' = length dst"
  by (auto simp: memcpy_def split: if_splits)

lemma memcpy_bounds:
  "memcpy dst d src s n = Some dst' \<Longrightarrow> d + n \<le> length dst \<and> s + n \<le> length src"
  by (auto simp: memcpy_def split: if_splits)

lemma memcpy_nth:
  assumes "memcpy dst d src s n = Some dst'" and "q < length dst"
  shows "dst' ! q = (if d \<le> q \<and> q < d + n then src ! (s + (q - d)) else dst ! q)"
proof -
  from assms(1) have b: "d + n \<le> length dst" "s + n \<le> length src"
    and eq: "dst' = take d dst @ take n (drop s src) @ drop (d + n) dst"
    by (auto simp: memcpy_def split: if_splits)
  show ?thesis
  proof (cases "q < d")
    case True
    then show ?thesis using b by (simp add: eq nth_append)
  next
    case False
    note nd = this
    show ?thesis
    proof (cases "q < d + n")
      case True
      with nd have "q - d < n" by arith
      then show ?thesis using nd True b by (simp add: eq nth_append)
    next
      case False
      with nd have "\<not> q - d < n" and "d + n + (q - d - n) = q" by arith+
      then show ?thesis using nd False b assms(2) by (simp add: eq nth_append)
    qed
  qed
qed

lemma memcpy_zero: "d \<le> length dst \<Longrightarrow> s \<le> length src \<Longrightarrow> memcpy dst d src s 0 = Some dst"
  by (simp add: memcpy_def)

lemma ring_index_lo:
  fixes p N j :: nat
  shows "j < N - p \<Longrightarrow> (p + j) mod N = p + j"
  by simp

lemma ring_index_hi:
  fixes p N j :: nat
  assumes "p < N" "N - p \<le> j" "j < N"
  shows "(p + j) mod N = j - (N - p)"
proof -
  have "N \<le> p + j" using assms by arith
  then have "(p + j) mod N = (p + j - N) mod N" by (rule le_mod_geq)
  also have "p + j - N < N" using assms by arith
  then have "(p + j - N) mod N = p + j - N" by (rule mod_less)
  also have "p + j - N = j - (N - p)" using assms by arith
  finally show ?thesis .
qed

lemma ring_write:
  assumes c1: "memcpy d p buf 0 l = Some d1"
    and c2: "memcpy d1 0 buf l (n - l) = Some d2"
    and l: "l = min n (N - p)" and p: "p < N" and n: "n \<le> N" and N: "N \<le> length d"
  shows "length d2 = length d"
    and "j < n \<Longrightarrow> d2 ! ((p + j) mod N) = buf ! j"
    and "q < N \<Longrightarrow> \<forall>j<n. q \<noteq> (p + j) mod N \<Longrightarrow> d2 ! q = d ! q"
proof -
  have len1: "length d1 = length d" using c1 by (rule memcpy_length)
  show "length d2 = length d" using memcpy_length [OF c2] len1 by simp
  have nth2: "d2 ! q = (if q < n - l then buf ! (l + q) else d1 ! q)" if "q < N" for q
    using memcpy_nth [OF c2, of q] that N len1 by simp
  have nth1: "d1 ! q = (if p \<le> q \<and> q < p + l then buf ! (q - p) else d ! q)" if "q < N" for q
    using memcpy_nth [OF c1, of q] that N by simp
  have nl: "n - l \<le> p" using l p n by (auto simp: min_def)
  show "d2 ! ((p + j) mod N) = buf ! j" if j: "j < n"
  proof (cases "j < l")
    case True
    have idx: "(p + j) mod N = p + j"
      using True l by (intro ring_index_lo) simp
    have "p + j < N" using True l by arith
    then show ?thesis using nth2 [of "p + j"] nth1 [of "p + j"] idx nl True by simp
  next
    case False
    have lN: "l = N - p" using False j l by arith
    have idx: "(p + j) mod N = j - l"
      unfolding lN using False j n p lN by (intro ring_index_hi) simp_all
    have "j - l < N" using j n by arith
    moreover have "j - l < n - l" using False j by arith
    moreover have "l + (j - l) = j" using False by arith
    ultimately show ?thesis using nth2 [of "j - l"] idx by simp
  qed
  show "d2 ! q = d ! q" if q: "q < N" and free: "\<forall>j<n. q \<noteq> (p + j) mod N"
  proof -
    have a: "\<not> q < n - l"
    proof
      assume qn: "q < n - l"
      then have lq: "l + q < n" by arith
      have lN: "l = N - p" using qn l by arith
      have "(p + (l + q)) mod N = l + q - (N - p)"
        using p lq n lN by (intro ring_index_hi) arith+
      also have "\<dots> = q" using lN by arith
      finally have "(p + (l + q)) mod N = q" .
      with free [rule_format, OF lq] show False by simp
    qed
    have b: "\<not> (p \<le> q \<and> q < p + l)"
    proof
      assume h: "p \<le> q \<and> q < p + l"
      then have qp: "q - p < n" using l by arith
      have "q - p < N - p" using h l by arith
      then have "(p + (q - p)) mod N = p + (q - p)" by (rule ring_index_lo)
      also have "\<dots> = q" using h by arith
      finally have "(p + (q - p)) mod N = q" .
      with free [rule_format, OF qp] show False by simp
    qed
    show ?thesis using nth2 [OF q] nth1 [OF q] a b by simp
  qed
qed

lemma ring_read:
  assumes c1: "memcpy buf 0 d p l = Some b1"
    and c2: "memcpy b1 l d 0 (n - l) = Some b2"
    and l: "l = min n (N - p)" and p: "p < N" and n: "n \<le> N"
  shows "length b2 = length buf"
    and "j < n \<Longrightarrow> b2 ! j = d ! ((p + j) mod N)"
    and "n \<le> j \<Longrightarrow> j < length buf \<Longrightarrow> b2 ! j = buf ! j"
proof -
  have len1: "length b1 = length buf" using c1 by (rule memcpy_length)
  show "length b2 = length buf" using memcpy_length [OF c2] len1 by simp
  have bnd: "n \<le> length buf" using memcpy_bounds [OF c2] len1 l by simp
  have nth2: "b2 ! q = (if l \<le> q \<and> q < n then d ! (q - l) else b1 ! q)" if "q < length buf" for q
    using memcpy_nth [OF c2, of q] that len1 l by auto
  have nth1: "b1 ! q = (if q < l then d ! (p + q) else buf ! q)" if "q < length buf" for q
    using memcpy_nth [OF c1, of q] that by simp
  show "b2 ! j = d ! ((p + j) mod N)" if j: "j < n"
  proof (cases "j < l")
    case True
    have "(p + j) mod N = p + j"
      using True l by (intro ring_index_lo) simp
    then show ?thesis using nth2 [of j] nth1 [of j] True j bnd by simp
  next
    case False
    have lN: "l = N - p" using False j l by arith
    have "(p + j) mod N = j - l"
      unfolding lN using False j n p lN by (intro ring_index_hi) simp_all
    then show ?thesis using nth2 [of j] False j bnd by simp
  qed
  show "b2 ! j = buf ! j" if "n \<le> j" "j < length buf"
    using nth2 [of j] nth1 [of j] that l by auto
qed

section \<open>Word arithmetic of a well-formed buffer\<close>

text \<open>
  With a capacity \<open>2 ^ k\<close> the masked cursor is the cursor modulo the capacity, and the
  word subtractions of the code do not wrap.
\<close>

lemma unat_min_u32: "unat (min_u32 a b) = min (unat a) (unat b)"
  by (simp add: min_u32_def word_less_nat_alt min_def)

lemma min_u32_le1: "min_u32 a b \<le> a"
  by (auto simp: min_u32_def)

lemma min_u32_le2: "min_u32 a b \<le> b"
  by (auto simp: min_u32_def)

lemma unat_pow2:
  assumes "k < 32"
  shows "unat (2 ^ k :: u32) = 2 ^ k"
proof -
  have "(2::nat) ^ k < 2 ^ 32" using assms by (intro power_strict_increasing) simp_all
  moreover have "(2 ^ k :: u32) = of_nat (2 ^ k)" by simp
  ultimately show ?thesis by (simp only: unat_of_nat) simp
qed


lemma rb_ok_facts:
  assumes ok: "rb_ok r"
  shows "0 < unat (r_size r)"
    and "unat (r_size r) dvd 2 ^ 32"
    and "unat (x AND r_mask r) = unat x mod unat (r_size r)"
    and "unat (r_size r - (x AND r_mask r)) = unat (r_size r) - unat x mod unat (r_size r)"
    and "unat (rb_avail r) \<le> unat (r_size r)"
    and "unat (rb_unused r) = unat (r_size r) - unat (rb_avail r)"
    and "unat (r_in r) mod unat (r_size r) = (unat (r_out r) + unat (rb_avail r)) mod unat (r_size r)"
proof -
  from ok obtain k where k: "k < 32" "r_size r = 2 ^ k"
    using word_single_bit [of "r_size r"] by (auto simp: rb_ok_def)
  have mask: "r_mask r = 2 ^ k - 1" using ok k by (simp add: rb_ok_def)
  have N: "unat (r_size r) = 2 ^ k" using k by (simp add: unat_pow2)
  show pos: "0 < unat (r_size r)" using N by simp
  show dvd: "unat (r_size r) dvd 2 ^ 32"
    unfolding N using k(1) by (intro le_imp_power_dvd) simp
  show off: "unat (x AND r_mask r) = unat x mod unat (r_size r)" for x
    unfolding N mask by (rule unat_and_pow2_minus1)
  have "unat (x AND r_mask r) < unat (r_size r)" unfolding off using pos by simp
  then have "x AND r_mask r \<le> r_size r" by (simp add: word_le_nat_alt)
  then show "unat (r_size r - (x AND r_mask r)) = unat (r_size r) - unat x mod unat (r_size r)"
    using off by (simp add: unat_sub)
  have av: "rb_avail r \<le> r_size r" using ok by (simp add: rb_ok_def)
  then show "unat (rb_avail r) \<le> unat (r_size r)" by (simp add: word_le_nat_alt)
  show "unat (rb_unused r) = unat (r_size r) - unat (rb_avail r)"
    using av by (simp add: rb_unused_def rb_avail_def unat_sub)
  have "r_in r = r_out r + rb_avail r" by (simp add: rb_avail_def)
  then have "unat (r_in r) = (unat (r_out r) + unat (rb_avail r)) mod 2 ^ 32"
    by (simp add: unat_word_ariths)
  then show "unat (r_in r) mod unat (r_size r) = (unat (r_out r) + unat (rb_avail r)) mod unat (r_size r)"
    using dvd by (simp add: mod_mod_cancel)
qed

section \<open>What \<open>rb_in\<close> and \<open>rb_out\<close> do to the queue\<close>

text \<open>
  On a well-formed buffer \<open>rb_in\<close> returns \<open>min (len, rb_unused)\<close> and appends that many
  bytes of the caller's array to the queue; \<open>rb_out\<close> returns \<open>min (len, rb_avail)\<close>, copies
  that many bytes from the head of the queue to the front of the caller's array, leaves the
  rest of that array alone and drops the bytes from the queue. Both keep the buffer
  well-formed. The caller's array has to hold the bytes that are copied; anything else is
  a read or write outside it.
\<close>

lemma mod_shift_neq:
  fixes x i k N :: nat
  assumes "i < k" "k < i + N"
  shows "(x + i) mod N \<noteq> (x + k) mod N"
proof
  assume "(x + i) mod N = (x + k) mod N"
  then have "(x + k) mod N = (x + i) mod N" by simp
  moreover have "x + i \<le> x + k" using assms by simp
  ultimately have "N dvd (x + k) - (x + i)" by (simp add: mod_eq_dvd_iff_nat)
  then have "N dvd k - i" by simp
  moreover have "0 < k - i" "k - i < N" using assms by arith+
  ultimately show False by (auto dest: dvd_imp_le)
qed

lemma rb_in_ok:
  assumes ok: "rb_ok r" and fit: "unat (min_u32 len0 (rb_unused r)) \<le> length buf"
  shows "\<exists>d. rb_in r buf len0 =
           Some (r\<lparr>r_data := d, r_in := r_in r + min_u32 len0 (rb_unused r)\<rparr>,
                 min_u32 len0 (rb_unused r)) \<and>
         rb_ok (r\<lparr>r_data := d, r_in := r_in r + min_u32 len0 (rb_unused r)\<rparr>) \<and>
         rb_bytes (r\<lparr>r_data := d, r_in := r_in r + min_u32 len0 (rb_unused r)\<rparr>) =
           rb_bytes r @ take (unat (min_u32 len0 (rb_unused r))) buf \<and>
         unat (rb_avail (r\<lparr>r_data := d, r_in := r_in r + min_u32 len0 (rb_unused r)\<rparr>)) =
           unat (rb_avail r) + unat (min_u32 len0 (rb_unused r))"
proof -
  define n where "n = min_u32 len0 (rb_unused r)"
  define l where "l = min_u32 n (r_size r - (r_in r AND r_mask r))"
  define N where "N = unat (r_size r)"
  define a where "a = unat (rb_avail r)"
  define p where "p = unat (r_in r) mod N"
  note f = rb_ok_facts [OF ok, folded N_def a_def]
  have Nlen: "N \<le> length (r_data r)" using ok by (simp add: rb_ok_def N_def)
  have un: "unat n = min (unat len0) (N - a)" by (simp add: n_def unat_min_u32 f(6))
  have aN: "a \<le> N" by (rule f(5))
  have nN: "unat n \<le> N" and anN: "a + unat n \<le> N" using un aN by arith+
  have nbuf: "unat n \<le> length buf" using fit by (simp add: n_def)
  have pN: "p < N" using f(1) by (simp add: p_def)
  have off: "unat (r_in r AND r_mask r) = p" by (simp add: f(3) p_def)
  have ul: "unat l = min (unat n) (N - p)" by (simp add: l_def unat_min_u32 f(4) p_def)
  have "l \<le> n" unfolding l_def by (rule min_u32_le1)
  then have sub: "unat (n - l) = unat n - unat l" by (rule unat_sub)
  have "p + unat l \<le> length (r_data r)" "0 + unat l \<le> length buf"
    using ul pN Nlen nbuf by arith+
  then have c1: "memcpy (r_data r) p buf 0 (unat l) =
      Some (take p (r_data r) @ take (unat l) (drop 0 buf) @ drop (p + unat l) (r_data r))"
    by (rule memcpy_Some)
  then obtain d1 where c1: "memcpy (r_data r) p buf 0 (unat l) = Some d1" by blast
  have len1: "length d1 = length (r_data r)" using c1 by (rule memcpy_length)
  have "0 + (unat n - unat l) \<le> length d1" "unat l + (unat n - unat l) \<le> length buf"
    using ul nN Nlen nbuf len1 by arith+
  then have "memcpy d1 0 buf (unat l) (unat n - unat l) =
      Some (take 0 d1 @ take (unat n - unat l) (drop (unat l) buf) @ drop (0 + (unat n - unat l)) d1)"
    by (rule memcpy_Some)
  then obtain d2 where c2: "memcpy d1 0 buf (unat l) (unat n - unat l) = Some d2" by blast
  let ?r' = "r\<lparr>r_data := d2, r_in := r_in r + n\<rparr>"
  have res: "rb_in r buf len0 = Some (?r', n)"
    by (simp add: rb_in_def Let_def n_def [symmetric] l_def [symmetric] off c1 sub c2)
  note w = ring_write [OF c1 c2 ul pN nN Nlen]
  have sz: "N < 2 ^ 32" unfolding N_def using unsigned_less [of "r_size r"] by simp
  have "unat (rb_avail r) + unat n < 2 ^ 32" using anN sz unfolding a_def by arith
  then have "unat (rb_avail r) + unat n < 2 ^ LENGTH(32)" by simp
  then have "unat (rb_avail r + n) = unat (rb_avail r) + unat n"
    by (simp only: unat_add_lem)
  moreover have av': "rb_avail ?r' = rb_avail r + n" by (simp add: rb_avail_def)
  ultimately have ua: "unat (rb_avail ?r') = a + unat n" by (simp add: a_def)
  have ok': "rb_ok ?r'"
    using ok ua anN w(1) by (simp add: rb_ok_def word_le_nat_alt N_def)
  have pa: "p = (unat (r_out r) + a) mod N" unfolding p_def by (rule f(7))
  have bytes: "rb_bytes ?r' = rb_bytes r @ take (unat n) buf"
  proof (rule nth_equalityI)
    show "length (rb_bytes ?r') = length (rb_bytes r @ take (unat n) buf)"
      using ua nbuf by (simp add: rb_bytes_def a_def)
  next
    fix i assume "i < length (rb_bytes ?r')"
    then have i: "i < a + unat n" using ua by (simp add: rb_bytes_def)
    have lhs: "rb_bytes ?r' ! i = d2 ! ((unat (r_out r) + i) mod N)"
      using i ua by (simp add: rb_bytes_def N_def)
    show "rb_bytes ?r' ! i = (rb_bytes r @ take (unat n) buf) ! i"
    proof (cases "i < a")
      case True
      have "\<forall>j<unat n. (unat (r_out r) + i) mod N \<noteq> (p + j) mod N"
      proof (intro allI impI)
        fix j assume j: "j < unat n"
        have "(p + j) mod N = (unat (r_out r) + (a + j)) mod N"
          unfolding pa by (simp add: mod_add_left_eq add.assoc)
        moreover have "(unat (r_out r) + i) mod N \<noteq> (unat (r_out r) + (a + j)) mod N"
          using True j anN by (intro mod_shift_neq) arith+
        ultimately show "(unat (r_out r) + i) mod N \<noteq> (p + j) mod N" by simp
      qed
      then have "d2 ! ((unat (r_out r) + i) mod N) = r_data r ! ((unat (r_out r) + i) mod N)"
        using pN by (intro w(3)) simp_all
      then show ?thesis using lhs True by (simp add: rb_bytes_def nth_append a_def N_def)
    next
      case False
      then have j: "i - a < unat n" using i by arith
      have "(unat (r_out r) + i) mod N = (unat (r_out r) + a + (i - a)) mod N"
        using False by simp
      also have "\<dots> = (p + (i - a)) mod N"
        unfolding pa by (simp add: mod_add_left_eq)
      finally have "d2 ! ((unat (r_out r) + i) mod N) = buf ! (i - a)"
        using w(2) [OF j] by simp
      then show ?thesis using lhs False j by (simp add: rb_bytes_def nth_append a_def)
    qed
  qed
  show ?thesis
    using res ok' bytes ua unfolding n_def a_def by blast
qed

lemma rb_peek_eq_out:
  "rb_peek r buf len = (case rb_out r buf len of None \<Rightarrow> None | Some (r', b, n) \<Rightarrow> Some (r, b))"
  by (simp add: rb_peek_def rb_out_def rb_size_def Let_def split: option.splits)

lemma rb_out_ok:
  assumes ok: "rb_ok r" and fit: "unat (min_u32 len0 (rb_avail r)) \<le> length buf"
  shows "\<exists>b. rb_out r buf len0 =
           Some (r\<lparr>r_out := r_out r + min_u32 len0 (rb_avail r)\<rparr>, b,
                 min_u32 len0 (rb_avail r)) \<and>
         length b = length buf \<and>
         take (unat (min_u32 len0 (rb_avail r))) b =
           take (unat (min_u32 len0 (rb_avail r))) (rb_bytes r) \<and>
         drop (unat (min_u32 len0 (rb_avail r))) b =
           drop (unat (min_u32 len0 (rb_avail r))) buf \<and>
         rb_ok (r\<lparr>r_out := r_out r + min_u32 len0 (rb_avail r)\<rparr>) \<and>
         rb_bytes (r\<lparr>r_out := r_out r + min_u32 len0 (rb_avail r)\<rparr>) =
           drop (unat (min_u32 len0 (rb_avail r))) (rb_bytes r) \<and>
         unat (rb_avail (r\<lparr>r_out := r_out r + min_u32 len0 (rb_avail r)\<rparr>)) =
           unat (rb_avail r) - unat (min_u32 len0 (rb_avail r))"
proof -
  define n where "n = min_u32 len0 (rb_avail r)"
  define l where "l = min_u32 n (r_size r - (r_out r AND r_mask r))"
  define N where "N = unat (r_size r)"
  define a where "a = unat (rb_avail r)"
  define p where "p = unat (r_out r) mod N"
  note f = rb_ok_facts [OF ok, folded N_def a_def]
  have Nlen: "N \<le> length (r_data r)" using ok by (simp add: rb_ok_def N_def)
  have un: "unat n = min (unat len0) a" by (simp add: n_def unat_min_u32 a_def)
  have aN: "a \<le> N" by (rule f(5))
  have na: "unat n \<le> a" and nN: "unat n \<le> N" using un aN by arith+
  have nbuf: "unat n \<le> length buf" using fit by (simp add: n_def)
  have pN: "p < N" using f(1) by (simp add: p_def)
  have off: "unat (r_out r AND r_mask r) = p" by (simp add: f(3) p_def)
  have ul: "unat l = min (unat n) (N - p)" by (simp add: l_def unat_min_u32 f(4) p_def)
  have "l \<le> n" unfolding l_def by (rule min_u32_le1)
  then have sub: "unat (n - l) = unat n - unat l" by (rule unat_sub)
  have "0 + unat l \<le> length buf" "p + unat l \<le> length (r_data r)"
    using ul pN Nlen nbuf by arith+
  then have "memcpy buf 0 (r_data r) p (unat l) =
      Some (take 0 buf @ take (unat l) (drop p (r_data r)) @ drop (0 + unat l) buf)"
    by (rule memcpy_Some)
  then obtain b1 where c1: "memcpy buf 0 (r_data r) p (unat l) = Some b1" by blast
  have len1: "length b1 = length buf" using c1 by (rule memcpy_length)
  have "unat l + (unat n - unat l) \<le> length b1" "0 + (unat n - unat l) \<le> length (r_data r)"
    using ul nN Nlen nbuf len1 by arith+
  then have "memcpy b1 (unat l) (r_data r) 0 (unat n - unat l) =
      Some (take (unat l) b1 @ take (unat n - unat l) (drop 0 (r_data r)) @
            drop (unat l + (unat n - unat l)) b1)"
    by (rule memcpy_Some)
  then obtain b2 where c2: "memcpy b1 (unat l) (r_data r) 0 (unat n - unat l) = Some b2"
    by blast
  let ?r' = "r\<lparr>r_out := r_out r + n\<rparr>"
  have res: "rb_out r buf len0 = Some (?r', b2, n)"
    by (simp add: rb_out_def Let_def n_def [symmetric] l_def [symmetric] off c1 sub c2)
  note rd = ring_read [OF c1 c2 ul pN nN]
  have bytes_nth: "rb_bytes r ! j = r_data r ! ((unat (r_out r) + j) mod N)" if "j < a" for j
    using that by (simp add: rb_bytes_def a_def N_def)
  have tk: "take (unat n) b2 = take (unat n) (rb_bytes r)"
  proof (rule nth_equalityI)
    show "length (take (unat n) b2) = length (take (unat n) (rb_bytes r))"
      using rd(1) nbuf na by (simp add: rb_bytes_def a_def)
  next
    fix j assume "j < length (take (unat n) b2)"
    then have j: "j < unat n" by simp
    have "b2 ! j = r_data r ! ((p + j) mod N)" using rd(2) [OF j] .
    also have "(p + j) mod N = (unat (r_out r) + j) mod N"
      unfolding p_def by (simp add: mod_add_left_eq)
    finally show "take (unat n) b2 ! j = take (unat n) (rb_bytes r) ! j"
      using j na bytes_nth [of j] by simp
  qed
  have dr: "drop (unat n) b2 = drop (unat n) buf"
  proof (rule nth_equalityI)
    show "length (drop (unat n) b2) = length (drop (unat n) buf)" using rd(1) by simp
  next
    fix j assume "j < length (drop (unat n) b2)"
    then have j: "unat n + j < length buf" using rd(1) by simp
    then show "drop (unat n) b2 ! j = drop (unat n) buf ! j"
      using rd(3) [of "unat n + j"] rd(1) nbuf by simp
  qed
  have "n \<le> rb_avail r" unfolding n_def by (rule min_u32_le2)
  then have "unat (rb_avail r - n) = unat (rb_avail r) - unat n" by (rule unat_sub)
  moreover have "rb_avail ?r' = rb_avail r - n" by (simp add: rb_avail_def)
  ultimately have ua: "unat (rb_avail ?r') = a - unat n" by (simp add: a_def)
  have ok': "rb_ok ?r'"
    using ok ua aN by (simp add: rb_ok_def word_le_nat_alt N_def)
  have out': "(unat (r_out r + n) + i) mod N = (unat (r_out r) + (unat n + i)) mod N" for i
  proof -
    have "unat (r_out r + n) mod N = (unat (r_out r) + unat n) mod N"
      using f(2) by (simp add: unat_word_ariths mod_mod_cancel)
    then have "(unat (r_out r + n) mod N + i) mod N = ((unat (r_out r) + unat n) mod N + i) mod N"
      by simp
    then show ?thesis by (simp add: mod_add_left_eq add.assoc)
  qed
  have bytes: "rb_bytes ?r' = drop (unat n) (rb_bytes r)"
  proof (rule nth_equalityI)
    show "length (rb_bytes ?r') = length (drop (unat n) (rb_bytes r))"
      using ua by (simp add: rb_bytes_def a_def)
  next
    fix i assume "i < length (rb_bytes ?r')"
    then have i: "i < a - unat n" using ua by (simp add: rb_bytes_def)
    then have "rb_bytes ?r' ! i = r_data r ! ((unat (r_out r + n) + i) mod N)"
      using ua by (simp add: rb_bytes_def N_def)
    also have "\<dots> = r_data r ! ((unat (r_out r) + (unat n + i)) mod N)"
      by (simp only: out')
    also have "\<dots> = rb_bytes r ! (unat n + i)"
      using i by (intro bytes_nth [symmetric]) arith
    finally have "rb_bytes ?r' ! i = rb_bytes r ! (unat n + i)" .
    moreover have "length (rb_bytes r) = a" by (simp add: rb_bytes_def a_def)
    ultimately show "rb_bytes ?r' ! i = drop (unat n) (rb_bytes r) ! i"
      using na by simp
  qed
  show ?thesis
    using res rd(1) tk dr ok' bytes ua unfolding n_def a_def by blast
qed

section \<open>Reachable states are well-formed or degenerate\<close>

lemma rb_in_Some_fit:
  assumes "rb_in r buf len0 = Some x"
  shows "unat (min_u32 len0 (rb_unused r)) \<le> length buf"
proof -
  define n where "n = min_u32 len0 (rb_unused r)"
  define l where "l = min_u32 n (r_size r - (r_in r AND r_mask r))"
  from assms obtain d1 d2 where
      "memcpy (r_data r) (unat (r_in r AND r_mask r)) buf 0 (unat l) = Some d1"
      and c2: "memcpy d1 0 buf (unat l) (unat (n - l)) = Some d2"
    by (auto simp: rb_in_def Let_def n_def l_def split: option.splits)
  have "l \<le> n" unfolding l_def by (rule min_u32_le1)
  then have "unat (n - l) = unat n - unat l" and "unat l \<le> unat n"
    by (simp_all add: unat_sub word_le_nat_alt)
  then show ?thesis using memcpy_bounds [OF c2] unfolding n_def by simp
qed

lemma rb_out_Some_fit:
  assumes "rb_out r buf len0 = Some x"
  shows "unat (min_u32 len0 (rb_avail r)) \<le> length buf"
proof -
  define n where "n = min_u32 len0 (rb_avail r)"
  define l where "l = min_u32 n (r_size r - (r_out r AND r_mask r))"
  from assms obtain b1 b2 where
      c1: "memcpy buf 0 (r_data r) (unat (r_out r AND r_mask r)) (unat l) = Some b1"
      and c2: "memcpy b1 (unat l) (r_data r) 0 (unat (n - l)) = Some b2"
    by (auto simp: rb_out_def Let_def n_def l_def split: option.splits)
  have "l \<le> n" unfolding l_def by (rule min_u32_le1)
  then have "unat (n - l) = unat n - unat l" and "unat l \<le> unat n"
    by (simp_all add: unat_sub word_le_nat_alt)
  then show ?thesis using memcpy_bounds [OF c2] memcpy_length [OF c1] unfolding n_def by simp
qed

lemma rb_degenerate_in: "rb_degenerate r \<Longrightarrow> rb_in r buf len = Some (r, 0)"
  by (simp add: rb_degenerate_def rb_in_def rb_unused_def min_u32_def memcpy_def Let_def)

lemma rb_degenerate_out: "rb_degenerate r \<Longrightarrow> rb_out r buf len = Some (r, buf, 0)"
  by (simp add: rb_degenerate_def rb_out_def rb_avail_def min_u32_def memcpy_def Let_def)

lemma rb_degenerate_peek: "rb_degenerate r \<Longrightarrow> rb_peek r buf len = Some (r, buf)"
  by (simp add: rb_peek_eq_out rb_degenerate_out)

lemma roundup_loop_pow2: "\<exists>j. roundup_loop len i = 2 ^ j"
proof (induction i)
  case 0
  have "roundup_loop len 0 = 2 ^ 0" by simp
  then show ?case by blast
next
  case (Suc i)
  show ?case
  proof (cases "len AND push_bit (Suc i) 1 = push_bit (Suc i) 1")
    case True
    then have "roundup_loop len (Suc i) = 2 ^ Suc i" by (simp add: Let_def)
    then show ?thesis by blast
  next
    case False
    then show ?thesis using Suc by (simp add: Let_def)
  qed
qed

lemma roundup_pow_of_two_single_bit:
  "roundup_pow_of_two len AND (roundup_pow_of_two len - 1) = 0"
proof (cases "len AND (len - 1) = 0")
  case True
  then show ?thesis by (simp add: roundup_pow_of_two_def)
next
  case False
  obtain j where "roundup_loop len 31 = 2 ^ j" using roundup_loop_pow2 by blast
  then have "roundup_pow_of_two len = 2 ^ Suc j"
    using False by (simp add: roundup_pow_of_two_def push_bit_eq_mult)
  then show ?thesis by (simp only: pow2_and_pred)
qed

lemma rb_init_state:
  assumes "rb_init RB_BUF_LEN (Some r0) len esize = (0, Some r)"
  shows "r = r0\<lparr>r_esize := esize, r_in := 0, r_out := 0, r_size := RB_BUF_LEN div esize,
                r_mask := RB_BUF_LEN div esize - 1\<rparr>"
    and "(RB_BUF_LEN div esize) AND (RB_BUF_LEN div esize - 1) = 0"
    and "len \<noteq> 0" and "esize \<noteq> 0"
  using assms by (auto simp: rb_init_def Let_def split: if_splits)

lemma rb_init_dyn_state:
  assumes "rb_init_dyn alloc (Some r0) len esize = (0, Some r)"
  shows "\<exists>d. alloc = Some d \<and>
           r = r0\<lparr>r_esize := esize, r_in := 0, r_out := 0,
                   r_size := roundup_pow_of_two (esize * len), r_data := d,
                   r_mask := roundup_pow_of_two (esize * len) - 1\<rparr>"
    and "len \<noteq> 0" and "esize \<noteq> 0"
  using assms by (auto simp: rb_init_dyn_def Let_def split: if_splits option.splits)

lemma rb_init_inv:
  assumes init: "rb_init RB_BUF_LEN (Some r0) len esize = (0, Some r)"
    and len: "length (r_data r0) = unat RB_BUF_LEN"
  shows "rb_ok r \<or> rb_degenerate r"
proof -
  note s = rb_init_state [OF init]
  have "unat (RB_BUF_LEN div esize) \<le> unat RB_BUF_LEN"
    by (simp add: unat_div)
  then show ?thesis
    using s(2) len by (cases "RB_BUF_LEN div esize = 0")
      (simp_all add: s(1) rb_ok_def rb_degenerate_def rb_avail_def)
qed

lemma rb_init_dyn_inv:
  assumes init: "rb_init_dyn (Some d) (Some r0) len esize = (0, Some r)"
    and len: "length d = unat (r_size r)"
  shows "rb_ok r \<or> rb_degenerate r"
proof -
  from rb_init_dyn_state(1) [OF init]
  have r: "r = r0\<lparr>r_esize := esize, r_in := 0, r_out := 0,
                   r_size := roundup_pow_of_two (esize * len), r_data := d,
                   r_mask := roundup_pow_of_two (esize * len) - 1\<rparr>" by simp
  show ?thesis
    using len roundup_pow_of_two_single_bit [of "esize * len"]
    by (cases "roundup_pow_of_two (esize * len) = 0")
      (simp_all add: r rb_ok_def rb_degenerate_def rb_avail_def)
qed

lemma rb_in_inv:
  assumes "rb_ok r \<or> rb_degenerate r" and "rb_in r buf len = Some (r', n)"
  shows "rb_ok r' \<or> rb_degenerate r'"
proof (cases "rb_degenerate r")
  case True
  then show ?thesis using assms(2) by (simp add: rb_degenerate_in)
next
  case False
  with assms(1) have ok: "rb_ok r" by simp
  from rb_in_ok [OF ok rb_in_Some_fit [OF assms(2)]] assms(2) show ?thesis by auto
qed

lemma rb_out_inv:
  assumes "rb_ok r \<or> rb_degenerate r" and "rb_out r buf len = Some (r', b, n)"
  shows "rb_ok r' \<or> rb_degenerate r'"
proof (cases "rb_degenerate r")
  case True
  then show ?thesis using assms(2) by (simp add: rb_degenerate_out)
next
  case False
  with assms(1) have ok: "rb_ok r" by simp
  from rb_out_ok [OF ok rb_out_Some_fit [OF assms(2)]] assms(2) show ?thesis by auto
qed

lemma rb_peek_state: "rb_peek r buf len = Some (r', b) \<Longrightarrow> r' = r"
  by (auto simp: rb_peek_eq_out split: option.splits)

lemma reachable_inv: "reachable r \<Longrightarrow> rb_ok r \<or> rb_degenerate r"
proof (induction rule: reachable.induct)
  case (by_init RB_BUF_LEN r0 len esize r)
  then show ?case by (rule rb_init_inv)
next
  case (by_init_dyn d r0 len esize r)
  then show ?case by (rule rb_init_dyn_inv)
next
  case (by_write r buf len r' n)
  then show ?case using rb_in_inv by blast
next
  case (by_read r buf len r' buf' n)
  then show ?case using rb_out_inv by blast
next
  case (by_peek r buf len r' buf')
  then show ?case using rb_peek_state by blast
qed

section \<open>Small facts about the clamp and the return values\<close>

lemma min_u32_0 [simp]: "min_u32 0 b = 0"
  by (auto simp: min_u32_def word_gt_0)

lemma min_u32_0_right [simp]: "min_u32 a 0 = 0"
  by (auto simp: min_u32_def)

lemma min_u32_same [simp]: "min_u32 a a = a"
  by (simp add: min_u32_def)

lemma rb_in_result: "rb_in r buf len = Some (r', n) \<Longrightarrow> n = min_u32 len (rb_unused r)"
  by (auto simp: rb_in_def Let_def split: option.splits)

lemma rb_out_result: "rb_out r buf len = Some (r', b, n) \<Longrightarrow> n = min_u32 len (rb_avail r)"
  by (auto simp: rb_out_def Let_def split: option.splits)

lemma rb_degenerate_avail: "rb_degenerate r \<Longrightarrow> rb_avail r = 0 \<and> rb_unused r = 0"
  by (simp add: rb_degenerate_def rb_avail_def rb_unused_def)

lemma min_u32_le: "a \<le> b \<Longrightarrow> min_u32 a b = a"
  by (auto simp: min_u32_def)

lemma rb_ok_offset_le:
  assumes "rb_ok r"
  shows "unat (x AND r_mask r) \<le> length (r_data r)"
proof -
  have "unat (x AND r_mask r) < unat (r_size r)"
    using rb_ok_facts(1,3) [OF assms] by simp
  then show ?thesis using assms by (simp add: rb_ok_def)
qed

lemma rb_ok_zero_len:
  assumes "rb_ok r"
  shows "rb_in r buf 0 = Some (r, 0)" and "rb_out r buf 0 = Some (r, buf, 0)"
  using rb_ok_offset_le [OF assms]
  by (simp_all add: rb_in_def rb_out_def Let_def memcpy_def)

lemma reachable_nonzero_ok: "reachable r \<Longrightarrow> r_size r \<noteq> 0 \<Longrightarrow> rb_ok r"
  using reachable_inv [of r] by (auto simp: rb_degenerate_def)

section \<open>The worked example, evaluated\<close>

text \<open>
  The example objects are what the code computes, and all but \<open>last8\<close> and \<open>past8\<close> are
  reachable.
\<close>

lemmas rb_eval = rb_in_def rb_out_def rb_peek_def rb_size_def rb_unused_def rb_avail_def
  rb_is_full_def rb_is_empty_def min_u32_def memcpy_def Let_def

lemma init_empty8: "rb_init 8 (Some blank8) 8 1 = (0, Some empty8)"
  by (simp add: rb_init_def blank8_def empty8_def Let_def)

lemma write_held6: "rb_in empty8 [1, 2, 3, 4, 5, 6] 6 = Some (held6, 6)"
  by (simp add: empty8_def held6_def rb_eval)

lemma write_full8: "rb_in held6 [7, 8, 9] 3 = Some (full8, 2)"
  by (simp add: held6_def full8_def rb_eval)

lemma read_spent6: "rb_out held6 [0, 0, 0, 0, 0, 0] 6 = Some (spent6, [1, 2, 3, 4, 5, 6], 6)"
  by (simp add: held6_def spent6_def rb_eval)

lemma write_wrap4: "rb_in spent6 [21, 22, 23, 24] 4 = Some (wrap4, 4)"
  by (simp add: spent6_def wrap4_def rb_eval)

lemma init_zero_cap: "rb_init 256 (Some blank256) 1 257 = (0, Some zero_cap)"
  by (simp add: rb_init_def blank256_def zero_cap_def Let_def)

lemma reachable_empty8: "reachable empty8"
  by (rule reachable.by_init [OF init_empty8]) (simp add: blank8_def)

lemma reachable_held6: "reachable held6"
  by (rule reachable.by_write [OF reachable_empty8 write_held6])

lemma reachable_spent6: "reachable spent6"
  by (rule reachable.by_read [OF reachable_held6 read_spent6])

lemma reachable_wrap4: "reachable wrap4"
  by (rule reachable.by_write [OF reachable_spent6 write_wrap4])

lemma reachable_zero_cap: "reachable zero_cap"
  by (rule reachable.by_init [OF init_zero_cap]) (simp add: blank256_def)

text \<open>
  The scenario of the specification: capacity 8; writing \<open>1, \<dots>, 6\<close> returns 6; writing
  \<open>7, 8, 9\<close> returns 2 and fills the buffer; reading 5 bytes returns \<open>1, \<dots>, 5\<close> and leaves
  3; writing \<open>9, 10\<close> returns 2 and goes to the offsets 0 and 1; reading 5 bytes then returns
  \<open>6, 7, 8, 9, 10\<close>.
\<close>

lemma scenario:
  "rb_init 8 (Some blank8) 8 1 = (0, Some empty8) \<and>
   rb_in empty8 [1, 2, 3, 4, 5, 6] 6 = Some (held6, 6) \<and> rb_avail held6 = 6 \<and>
   rb_in held6 [7, 8, 9] 3 = Some (full8, 2) \<and> rb_is_full full8 = 1 \<and>
   rb_out full8 [0, 0, 0, 0, 0] 5 = Some (full8\<lparr>r_out := 5\<rparr>, [1, 2, 3, 4, 5], 5) \<and>
   rb_avail (full8\<lparr>r_out := 5\<rparr>) = 3 \<and>
   rb_in (full8\<lparr>r_out := 5\<rparr>) [9, 10] 2 =
     Some (full8\<lparr>r_out := 5, r_in := 10, r_data := [9, 10, 3, 4, 5, 6, 7, 8]\<rparr>, 2) \<and>
   rb_out (full8\<lparr>r_out := 5, r_in := 10, r_data := [9, 10, 3, 4, 5, 6, 7, 8]\<rparr>)
       [0, 0, 0, 0, 0] 5 =
     Some (full8\<lparr>r_out := 10, r_in := 10, r_data := [9, 10, 3, 4, 5, 6, 7, 8]\<rparr>,
           [6, 7, 8, 9, 10], 5)"
  by (simp add: init_empty8 write_held6 write_full8) (simp add: held6_def full8_def rb_eval)

section \<open>Construction: the contract and the capacity\<close>

text \<open>
  Claim C8. \<open>rb_init\<close> returns a negative value when the requested count or the element
  size is 0, in the static and in the dynamic build; and when it returns 0 the object has
  both cursors at 0 and \<open>mask = size - 1\<close> (in 32-bit arithmetic).
\<close>

theorem rb_init_contract:
  "fst (rb_init RB_BUF_LEN rp 0 esize) < 0 \<and> fst (rb_init RB_BUF_LEN rp len 0) < 0 \<and>
   fst (rb_init_dyn alloc rp 0 esize) < 0 \<and> fst (rb_init_dyn alloc rp len 0) < 0 \<and>
   (rb_init RB_BUF_LEN rp len esize = (0, Some r) \<longrightarrow>
      r_in r = 0 \<and> r_out r = 0 \<and> r_mask r = r_size r - 1) \<and>
   (rb_init_dyn alloc rp len esize = (0, Some r') \<longrightarrow>
      r_in r' = 0 \<and> r_out r' = 0 \<and> r_mask r' = r_size r' - 1)"
  by (auto simp: rb_init_def rb_init_dyn_def Let_def split: option.splits if_splits)

theorem rb_init_contract_witness:
  "rb_init 8 (Some \<lparr>r_in = 5, r_out = 7, r_mask = 9, r_size = 3, r_esize = 4,
                    r_data = [1, 2, 3, 4, 5, 6, 7, 8]\<rparr>) 8 1
     = (0, Some \<lparr>r_in = 0, r_out = 0, r_mask = 7, r_size = 8, r_esize = 1,
                  r_data = [1, 2, 3, 4, 5, 6, 7, 8]\<rparr>) \<and>
   r_mask \<lparr>r_in = 0, r_out = 0, r_mask = 7, r_size = 8, r_esize = 1,
            r_data = [1, 2, 3, 4, 5, 6, 7, 8]\<rparr> = 8 - 1 \<and>
   rb_init_dyn (Some [0, 0, 0, 0, 0, 0, 0, 0])
       (Some \<lparr>r_in = 5, r_out = 7, r_mask = 9, r_size = 3, r_esize = 4,
               r_data = [1, 2, 3, 4, 5, 6, 7, 8]\<rparr>) 8 1
     = (0, Some \<lparr>r_in = 0, r_out = 0, r_mask = 7, r_size = 8, r_esize = 1,
                  r_data = [0, 0, 0, 0, 0, 0, 0, 0]\<rparr>) \<and>
   r_mask \<lparr>r_in = 0, r_out = 0, r_mask = 7, r_size = 8, r_esize = 1,
            r_data = [0, 0, 0, 0, 0, 0, 0, 0]\<rparr> = 8 - 1"
  using rb_init_contract [where RB_BUF_LEN = 8 and len = 8 and esize = 1
      and alloc = "Some [0, 0, 0, 0, 0, 0, 0, 0]"
      and rp = "Some \<lparr>r_in = 5, r_out = 7, r_mask = 9, r_size = 3, r_esize = 4,
                       r_data = [1, 2, 3, 4, 5, 6, 7, 8]\<rparr>"
      and r = "\<lparr>r_in = 0, r_out = 0, r_mask = 7, r_size = 8, r_esize = 1,
                 r_data = [1, 2, 3, 4, 5, 6, 7, 8]\<rparr>"
      and r' = "\<lparr>r_in = 0, r_out = 0, r_mask = 7, r_size = 8, r_esize = 1,
                  r_data = [0, 0, 0, 0, 0, 0, 0, 0]\<rparr>"]
  by (simp add: rb_init_def rb_init_dyn_def roundup_pow_of_two_def Let_def)

text \<open>
  The capacity after a successful \<open>rb_init\<close> is 0 or a power of two. The test
  \<open>(size & (size - 1)) != 0\<close> of the static build, which its comment explains by
  ``\<open>r->size\<close> must be \<open>2^n\<close>'', rejects every quotient that is neither, and lets the
  quotient 0 through: it is 0 whenever \<open>esize\<close> exceeds \<open>RB_BUF_LEN\<close>. The dynamic build
  reaches the capacity 0 when \<open>esize * len\<close> wraps to 0 (and when it exceeds \<open>2 ^ 31\<close> and
  is no power of two), provided \<open>malloc (0)\<close> returns a block.
\<close>

lemma rb_init_capacity:
  assumes "rb_init RB_BUF_LEN (Some r0) len esize = (0, Some r)"
  shows "r_size r = 0 \<or> (\<exists>k<32. r_size r = 2 ^ k)"
  using rb_init_state [OF assms] word_single_bit [of "r_size r"] by auto

lemma rb_init_dyn_capacity:
  assumes "rb_init_dyn alloc (Some r0) len esize = (0, Some r)"
  shows "r_size r = 0 \<or> (\<exists>k<32. r_size r = 2 ^ k)"
proof -
  from rb_init_dyn_state(1) [OF assms]
  have "r_size r = roundup_pow_of_two (esize * len)" by auto
  then show ?thesis
    using roundup_pow_of_two_single_bit [of "esize * len"] word_single_bit [of "r_size r"]
    by auto
qed

lemma rb_init_accepts_zero_capacity:
  assumes "RB_BUF_LEN < esize" and "len \<noteq> 0"
  shows "rb_init RB_BUF_LEN (Some r0) len esize =
           (0, Some (r0\<lparr>r_esize := esize, r_in := 0, r_out := 0, r_size := 0, r_mask := - 1\<rparr>))"
proof -
  have "RB_BUF_LEN div esize = 0" using assms(1) by (rule div_word_less)
  moreover have "esize \<noteq> 0" using assms(1) by auto
  ultimately show ?thesis using assms(2) by (simp add: rb_init_def Let_def)
qed

lemma rb_init_rejects_other_capacities:
  assumes "len \<noteq> 0" and "esize \<noteq> 0" and "RB_BUF_LEN div esize \<noteq> 0"
    and "\<forall>k<32. RB_BUF_LEN div esize \<noteq> 2 ^ k"
  shows "fst (rb_init RB_BUF_LEN (Some r0) len esize) = - 1"
proof -
  have "(RB_BUF_LEN div esize) AND (RB_BUF_LEN div esize - 1) \<noteq> 0"
    using word_single_bit [of "RB_BUF_LEN div esize"] assms(3,4) by blast
  then show ?thesis using assms(1,2) by (simp add: rb_init_def Let_def)
qed

lemma rb_init_dyn_zero_capacity:
  "rb_init_dyn (Some []) (Some blank8) 65536 65536 =
     (0, Some \<lparr>r_in = 0, r_out = 0, r_mask = 4294967295, r_size = 0, r_esize = 65536,
                r_data = []\<rparr>)"
  by (simp add: rb_init_dyn_def roundup_pow_of_two_def blank8_def Let_def)

text \<open>
  Claim C4 says that every successful \<open>rb_init\<close> leaves a capacity that is a nonzero power
  of two, and that the static build fails whenever \<open>RB_BUF_LEN / esize\<close> is no power of
  two. The code at \<open>RB_BUF_LEN = 256\<close>, \<open>len = 1\<close>, \<open>esize = 257\<close>: the quotient is 0, which
  is no power of two, \<open>rb_init\<close> returns 0, and the capacity of the object is 0.
\<close>

theorem rb_init_zero_capacity:
  "rb_init 256 (Some blank256) 1 257 = (0, Some zero_cap) \<and> r_size zero_cap = 0 \<and>
   256 div 257 = (0 :: u32)"
  by (simp add: init_zero_cap) (simp add: zero_cap_def)

section \<open>The capacity invariant\<close>

text \<open>
  Claim C3. In every reachable state, that is after every call of every finite sequence of
  \<open>rb_in\<close>, \<open>rb_out\<close> and \<open>rb_peek\<close> calls on a successfully initialised object,
  \<open>rb_avail\<close> is the unsigned difference \<open>in - out\<close> and lies between 0 and the capacity.
\<close>

theorem capacity_invariant:
  assumes "reachable r"
  shows "rb_avail r = r_in r - r_out r \<and> 0 \<le> rb_avail r \<and> rb_avail r \<le> rb_size r"
  using reachable_inv [OF assms]
  by (auto simp: rb_ok_def rb_degenerate_def rb_avail_def rb_size_def)

theorem capacity_invariant_witness:
  "reachable wrap4 \<and> rb_avail wrap4 = 10 - 6 \<and> rb_size wrap4 = 8 \<and>
   rb_avail wrap4 \<le> rb_size wrap4"
  using capacity_invariant [OF reachable_wrap4] reachable_wrap4
  by (simp add: wrap4_def rb_avail_def rb_size_def)

section \<open>Write: frame\<close>

text \<open>
  Claim C9. A call of \<open>rb_in\<close> changes at most the byte array and the write cursor
  \<open>in\<close>: the read cursor \<open>out\<close>, \<open>size\<close>, \<open>mask\<close> and \<open>esize\<close> are as before. This holds
  from every state, reachable or not.
\<close>

theorem rb_in_frame:
  "rb_in r buf len = Some (r', n) \<Longrightarrow>
   r_out r' = r_out r \<and> r_size r' = r_size r \<and> r_mask r' = r_mask r \<and> r_esize r' = r_esize r \<and>
   r' = r\<lparr>r_data := r_data r', r_in := r_in r'\<rparr>"
  by (auto simp: rb_in_def Let_def split: option.splits)

theorem rb_in_frame_witness:
  "rb_in \<lparr>r_in = 6, r_out = 1, r_mask = 7, r_size = 8, r_esize = 1,
          r_data = [1, 2, 3, 4, 5, 6, 0, 0]\<rparr> [9, 10, 11, 12] 4
     = Some (\<lparr>r_in = 9, r_out = 1, r_mask = 7, r_size = 8, r_esize = 1,
              r_data = [11, 2, 3, 4, 5, 6, 9, 10]\<rparr>, 3)
   \<and> r_out \<lparr>r_in = 9, r_out = 1, r_mask = 7, r_size = 8, r_esize = 1,
              r_data = [11, 2, 3, 4, 5, 6, 9, 10]\<rparr> = 1"
  using rb_in_frame [of "\<lparr>r_in = 6, r_out = 1, r_mask = 7, r_size = 8, r_esize = 1,
                           r_data = [1, 2, 3, 4, 5, 6, 0, 0]\<rparr>" "[9, 10, 11, 12]" 4
                        "\<lparr>r_in = 9, r_out = 1, r_mask = 7, r_size = 8, r_esize = 1,
                           r_data = [11, 2, 3, 4, 5, 6, 9, 10]\<rparr>" 3]
  by (simp add: rb_in_def rb_unused_def min_u32_def memcpy_def Let_def)

section \<open>Calls of length 0\<close>

text \<open>
  Claim C10. In every reachable state, \<open>rb_in\<close> and \<open>rb_out\<close> with \<open>len = 0\<close> return 0 and
  leave the object as it is, cursors and bytes; \<open>rb_out\<close> and \<open>rb_peek\<close> with \<open>len = 0\<close> leave
  the caller's array as it is.
\<close>

theorem zero_length_noop:
  assumes "reachable r"
  shows "rb_in r buf 0 = Some (r, 0) \<and> rb_out r dst 0 = Some (r, dst, 0) \<and>
         rb_peek r dst 0 = Some (r, dst)"
proof (cases "rb_degenerate r")
  case True
  then show ?thesis
    by (simp add: rb_degenerate_in rb_degenerate_out rb_degenerate_peek)
next
  case False
  with reachable_inv [OF assms] have "rb_ok r" by simp
  then show ?thesis by (simp add: rb_ok_zero_len rb_peek_eq_out)
qed

theorem zero_length_noop_witness:
  "reachable wrap4 \<and> rb_in wrap4 [9, 9] 0 = Some (wrap4, 0) \<and>
   rb_out wrap4 [7, 7, 7] 0 = Some (wrap4, [7, 7, 7], 0) \<and>
   rb_peek wrap4 [7, 7, 7] 0 = Some (wrap4, [7, 7, 7])"
  using zero_length_noop [OF reachable_wrap4, of "[9, 9]" "[7, 7, 7]"] reachable_wrap4
  by simp

section \<open>Clamping, full and empty\<close>

text \<open>
  \<open>rb_in\<close> returns \<open>min (len, rb_unused)\<close> and \<open>rb_out\<close> returns \<open>min (len, rb_avail)\<close> in
  every reachable state, when the caller's array holds that many bytes. Reading
  \<open>rb_avail\<close> bytes empties any reachable buffer, and every later read returns 0. Writing
  \<open>rb_unused\<close> bytes fills a reachable buffer of nonzero capacity, and every later write
  returns 0 and changes nothing.
\<close>

lemma rb_is_full_iff:
  assumes "rb_ok r"
  shows "rb_is_full r = 1 \<longleftrightarrow> rb_avail r = r_size r"
proof -
  from assms have nz: "r_size r \<noteq> 0" and m: "r_mask r = r_size r - 1"
    and le: "rb_avail r \<le> r_size r" by (simp_all add: rb_ok_def)
  have "unat (r_mask r) = unat (r_size r) - 1" unfolding m using nz by (rule unat_minus_one)
  moreover have "0 < unat (r_size r)" using nz by (simp add: unat_gt_0)
  moreover have "unat (rb_avail r) \<le> unat (r_size r)" using le by (simp add: word_le_nat_alt)
  ultimately have "r_mask r < rb_avail r \<longleftrightarrow> unat (rb_avail r) = unat (r_size r)"
    unfolding word_less_nat_alt by arith
  then show ?thesis by (simp add: rb_is_full_def word_unat_eq_iff)
qed

lemma rb_in_clamps:
  assumes "reachable r" and "unat (min_u32 len (rb_unused r)) \<le> length buf"
  shows "\<exists>r'. rb_in r buf len = Some (r', min_u32 len (rb_unused r))"
proof (cases "rb_degenerate r")
  case True
  then show ?thesis by (simp add: rb_degenerate_in rb_degenerate_avail)
next
  case False
  with reachable_inv [OF assms(1)] have "rb_ok r" by simp
  from rb_in_ok [OF this assms(2)] show ?thesis by blast
qed

lemma rb_out_clamps:
  assumes "reachable r" and "unat (min_u32 len (rb_avail r)) \<le> length buf"
  shows "\<exists>r' b. rb_out r buf len = Some (r', b, min_u32 len (rb_avail r))"
proof (cases "rb_degenerate r")
  case True
  then show ?thesis by (simp add: rb_degenerate_out rb_degenerate_avail)
next
  case False
  with reachable_inv [OF assms(1)] have "rb_ok r" by simp
  from rb_out_ok [OF this assms(2)] show ?thesis by blast
qed

lemma rb_in_when_full:
  assumes "rb_ok r" and "rb_unused r = 0"
  shows "rb_in r buf len = Some (r, 0)"
  using rb_ok_offset_le [OF assms(1)] assms(2)
  by (simp add: rb_in_def Let_def memcpy_def)

lemma rb_out_when_empty:
  assumes "rb_ok r" and "rb_avail r = 0"
  shows "rb_out r buf len = Some (r, buf, 0)"
  using rb_ok_offset_le [OF assms(1)] assms(2)
  by (simp add: rb_out_def Let_def memcpy_def)

lemma filling_makes_full:
  assumes "reachable r" and "r_size r \<noteq> 0" and "rb_in r buf (rb_unused r) = Some (r', n)"
  shows "n = rb_unused r \<and> rb_is_full r' = 1 \<and> rb_in r' buf' len' = Some (r', 0)"
proof -
  have ok: "rb_ok r" using assms(1,2) by (rule reachable_nonzero_ok)
  from rb_in_ok [OF ok rb_in_Some_fit [OF assms(3)]] assms(3)
  have n: "n = rb_unused r" and ok': "rb_ok r'"
    and ua: "unat (rb_avail r') = unat (rb_avail r) + unat (rb_unused r)"
    by auto
  have sz: "r_size r' = r_size r" using assms(3) by (auto simp: rb_in_def Let_def split: option.splits)
  have "unat (rb_avail r') = unat (r_size r')"
    using ua rb_ok_facts(5,6) [OF ok] sz by simp
  then have full: "rb_avail r' = r_size r'" by (simp only: word_unat_eq_iff)
  then have "rb_unused r' = 0" by (simp add: rb_unused_def rb_avail_def)
  then show ?thesis using n full ok' by (simp add: rb_is_full_iff rb_in_when_full)
qed

lemma draining_makes_empty:
  assumes "reachable r" and "rb_out r buf (rb_avail r) = Some (r', b, n)"
  shows "n = rb_avail r \<and> rb_is_empty r' = 1 \<and> rb_out r' buf' len' = Some (r', buf', 0)"
proof (cases "rb_degenerate r")
  case True
  then show ?thesis using assms(2)
    by (auto simp: rb_degenerate_out rb_degenerate_avail rb_is_empty_def rb_degenerate_def)
next
  case False
  with reachable_inv [OF assms(1)] have ok: "rb_ok r" by simp
  from rb_out_ok [OF ok rb_out_Some_fit [OF assms(2)]] assms(2)
  have n: "n = rb_avail r" and ok': "rb_ok r'"
    and ua: "unat (rb_avail r') = unat (rb_avail r) - unat (rb_avail r)"
    by auto
  then have "unat (rb_avail r') = unat (0 :: u32)" by simp
  then have e: "rb_avail r' = 0" by (simp only: word_unat_eq_iff)
  then have "r_in r' = r_out r'" by (simp add: rb_avail_def)
  then show ?thesis using n e ok' by (simp add: rb_is_empty_def rb_out_when_empty)
qed

text \<open>
  Claim C2 says, among the above, that after writing exactly \<open>rb_unused\<close> bytes
  \<open>rb_is_full\<close> is true in every reachable state. The code on \<open>zero_cap\<close>, the object that
  \<open>rb_init (r, 1, 257)\<close> returns with success when \<open>RB_BUF_LEN = 256\<close>: \<open>rb_unused\<close> is 0,
  writing those 0 bytes returns 0 and leaves the object as it is, and \<open>rb_is_full\<close> is 0.
\<close>

theorem rb_in_unused_zero_capacity:
  "rb_init 256 (Some blank256) 1 257 = (0, Some zero_cap) \<and>
   rb_unused zero_cap = 0 \<and> rb_in zero_cap [] 0 = Some (zero_cap, 0) \<and>
   rb_is_full zero_cap = 0"
  by (simp add: init_zero_cap) (simp add: zero_cap_def rb_eval)

section \<open>\<open>rb_is_full\<close> and the capacity\<close>

text \<open>
  In a reachable state of nonzero capacity \<open>rb_is_full\<close>, which tests
  \<open>rb_avail > mask\<close>, holds exactly when \<open>rb_avail\<close> equals the capacity.
\<close>

lemma rb_is_full_iff_reachable:
  "reachable r \<Longrightarrow> r_size r \<noteq> 0 \<Longrightarrow> rb_is_full r = 1 \<longleftrightarrow> rb_avail r = rb_size r"
  by (simp add: rb_is_full_iff reachable_nonzero_ok rb_size_def)

text \<open>
  Claim C5 says that \<open>rb_is_full\<close> holds exactly when \<open>rb_avail\<close> equals the capacity, in
  every reachable state of every successfully initialised object. The code on \<open>zero_cap\<close>:
  \<open>rb_avail\<close> equals the capacity (both are 0), the invariant \<open>rb_avail \<le> size\<close> holds, and
  \<open>rb_is_full\<close> is 0, because the mask is \<open>0 - 1 = 0xFFFFFFFF\<close>.
\<close>

theorem rb_is_full_zero_capacity:
  "rb_init 256 (Some blank256) 1 257 = (0, Some zero_cap) \<and>
   rb_avail zero_cap = rb_size zero_cap \<and> rb_avail zero_cap \<le> rb_size zero_cap \<and>
   rb_is_full zero_cap = 0"
  by (simp add: init_zero_cap) (simp add: zero_cap_def rb_eval)

section \<open>Peek\<close>

text \<open>
  Claim C6. In every reachable state, when the destination holds \<open>min (len, rb_avail)\<close>
  bytes, \<open>rb_peek\<close> leaves in the destination what \<open>rb_out\<close> with the same arguments
  leaves there: the first \<open>min (len, rb_avail)\<close> bytes of the queue, and behind them the
  destination's old bytes. \<open>rb_peek\<close> leaves the object as it is, so \<open>rb_avail\<close> is
  unchanged, and a second \<open>rb_peek\<close> with the same arguments changes nothing any more.
\<close>

theorem rb_peek_nondestructive_read:
  assumes "reachable r" and "unat (min_u32 len (rb_avail r)) \<le> length dst"
  shows "\<exists>r' b. rb_out r dst len = Some (r', b, min_u32 len (rb_avail r)) \<and>
           rb_peek r dst len = Some (r, b) \<and>
           rb_peek r b len = Some (r, b) \<and>
           take (unat (min_u32 len (rb_avail r))) b =
             take (unat (min_u32 len (rb_avail r))) (rb_bytes r) \<and>
           drop (unat (min_u32 len (rb_avail r))) b =
             drop (unat (min_u32 len (rb_avail r))) dst"
proof (cases "rb_degenerate r")
  case True
  then show ?thesis
    by (simp add: rb_degenerate_out rb_degenerate_peek rb_degenerate_avail)
next
  case False
  with reachable_inv [OF assms(1)] have ok: "rb_ok r" by simp
  define n where "n = min_u32 len (rb_avail r)"
  from rb_out_ok [OF ok assms(2)] obtain b where
      out: "rb_out r dst len = Some (r\<lparr>r_out := r_out r + n\<rparr>, b, n)"
      and lb: "length b = length dst"
      and tk: "take (unat n) b = take (unat n) (rb_bytes r)"
      and dr: "drop (unat n) b = drop (unat n) dst"
    unfolding n_def by blast
  have "unat (min_u32 len (rb_avail r)) \<le> length b" using assms(2) lb by simp
  from rb_out_ok [OF ok this] obtain b' where
      out': "rb_out r b len = Some (r\<lparr>r_out := r_out r + n\<rparr>, b', n)"
      and tk': "take (unat n) b' = take (unat n) (rb_bytes r)"
      and dr': "drop (unat n) b' = drop (unat n) b"
    unfolding n_def by blast
  have "b' = take (unat n) b' @ drop (unat n) b'" by simp
  also have "\<dots> = take (unat n) b @ drop (unat n) b" by (simp only: tk tk' dr')
  finally have "b' = b" by simp
  then show ?thesis
    using out out' tk dr unfolding n_def by (simp add: rb_peek_eq_out)
qed

theorem rb_peek_nondestructive_read_witness:
  "reachable wrap4 \<and> unat (min_u32 9 (rb_avail wrap4)) \<le> length [0, 0, 0, 0, 0 :: u8] \<and>
   rb_avail wrap4 = 4 \<and>
   rb_out wrap4 [0, 0, 0, 0, 0] 9 = Some (wrap4\<lparr>r_out := 10\<rparr>, [21, 22, 23, 24, 0], 4) \<and>
   rb_peek wrap4 [0, 0, 0, 0, 0] 9 = Some (wrap4, [21, 22, 23, 24, 0]) \<and>
   rb_peek wrap4 [21, 22, 23, 24, 0] 9 = Some (wrap4, [21, 22, 23, 24, 0]) \<and>
   rb_bytes wrap4 = [21, 22, 23, 24]"
proof -
  have fit: "unat (min_u32 9 (rb_avail wrap4)) \<le> length [0, 0, 0, 0, 0 :: u8]"
    by (simp add: wrap4_def rb_eval)
  have bytes: "rb_bytes wrap4 = [21, 22, 23, 24]"
    by (simp add: wrap4_def rb_bytes_def rb_avail_def upt_rec)
  from rb_peek_nondestructive_read [OF reachable_wrap4 fit] show ?thesis
    using reachable_wrap4 fit bytes by (simp add: wrap4_def rb_eval)
qed

section \<open>Writing and reading back\<close>

text \<open>
  Claim C1 says that in any reachable state, writing \<open>S\<close> (no longer than \<open>rb_unused\<close>) and
  then reading \<open>|S|\<close> bytes yields \<open>S\<close>. The buffer is a queue: the read returns the oldest
  bytes. On \<open>held6\<close>, which holds \<open>1, \<dots>, 6\<close>, writing \<open>7, 8\<close> returns 2 and reading 2 bytes
  then yields \<open>1, 2\<close>.
\<close>

theorem write_then_read_not_roundtrip_when_occupied:
  "rb_init 8 (Some blank8) 8 1 = (0, Some empty8) \<and>
   rb_in empty8 [1, 2, 3, 4, 5, 6] 6 = Some (held6, 6) \<and>
   length [7, 8 :: u8] \<le> unat (rb_unused held6) \<and>
   rb_in held6 [7, 8] 2 = Some (full8, 2) \<and>
   rb_out full8 [0, 0] 2 = Some (full8\<lparr>r_out := 2\<rparr>, [1, 2], 2) \<and>
   [1, 2] \<noteq> [7, 8 :: u8]"
  by (simp add: init_empty8 write_held6) (simp add: held6_def full8_def rb_eval)

text \<open>
  Claim C1, amended. In every reachable state in which the buffer is empty, for every
  \<open>S\<close> no longer than \<open>rb_unused\<close> and every destination of at least \<open>|S|\<close> bytes, \<open>rb_in\<close>
  with \<open>S\<close> returns \<open>|S|\<close>, and \<open>rb_out\<close> with length \<open>|S|\<close> then returns \<open>|S|\<close> and puts
  exactly \<open>S\<close> at the front of the destination, wherever the cursors are. The witness
  writes across the end of the array, to the offsets 6, 7, 0 and 1.
\<close>

theorem roundtrip_from_empty:
  assumes "reachable r" and "rb_is_empty r = 1"
    and "length S \<le> unat (rb_unused r)" and "length S \<le> length dst"
  shows "\<exists>r' r'' b.
           rb_in r S (of_nat (length S)) = Some (r', of_nat (length S)) \<and>
           rb_out r' dst (of_nat (length S)) = Some (r'', b, of_nat (length S)) \<and>
           take (length S) b = S"
proof (cases "rb_degenerate r")
  case True
  with assms(3) have "S = []" by (simp add: rb_degenerate_avail)
  then show ?thesis using True by (simp add: rb_degenerate_in rb_degenerate_out)
next
  case False
  with reachable_inv [OF assms(1)] have ok: "rb_ok r" by simp
  define n :: u32 where "n = of_nat (length S)"
  have un: "unat n = length S" unfolding n_def using assms(3) by (rule le_unat_uoi)
  then have "n \<le> rb_unused r" using assms(3) by (simp add: word_le_nat_alt)
  then have mn: "min_u32 n (rb_unused r) = n" by (rule min_u32_le)
  from assms(2) have av: "rb_avail r = 0"
    by (simp add: rb_is_empty_def rb_avail_def split: if_splits)
  then have nil: "rb_bytes r = []" by (simp add: rb_bytes_def)
  have "unat (min_u32 n (rb_unused r)) \<le> length S" by (simp add: mn un)
  from rb_in_ok [OF ok this] obtain d where
      wr: "rb_in r S n = Some (r\<lparr>r_data := d, r_in := r_in r + n\<rparr>, n)"
      and ok': "rb_ok (r\<lparr>r_data := d, r_in := r_in r + n\<rparr>)"
      and bytes: "rb_bytes (r\<lparr>r_data := d, r_in := r_in r + n\<rparr>) = S"
      and ua: "unat (rb_avail (r\<lparr>r_data := d, r_in := r_in r + n\<rparr>)) = unat n"
    unfolding mn by (auto simp: nil un av)
  let ?r' = "r\<lparr>r_data := d, r_in := r_in r + n\<rparr>"
  have av': "rb_avail ?r' = n" using ua by (simp only: word_unat_eq_iff)
  have "unat (min_u32 n (rb_avail ?r')) \<le> length dst"
    using assms(4) by (simp add: av' un)
  from rb_out_ok [OF ok' this] obtain b where
      rd: "rb_out ?r' dst n = Some (?r'\<lparr>r_out := r_out ?r' + n\<rparr>, b, n)"
      and tk: "take (unat n) b = take (unat n) (rb_bytes ?r')"
    unfolding av' by auto
  have "take (length S) b = S" using tk by (simp add: un bytes)
  then show ?thesis using wr rd unfolding n_def by blast
qed

theorem roundtrip_from_empty_witness:
  "reachable spent6 \<and> rb_is_empty spent6 = 1 \<and>
   length [21, 22, 23, 24 :: u8] \<le> unat (rb_unused spent6) \<and>
   length [21, 22, 23, 24 :: u8] \<le> length [0, 0, 0, 0, 0 :: u8] \<and>
   rb_in spent6 [21, 22, 23, 24] 4 = Some (wrap4, 4) \<and>
   r_data wrap4 = [23, 24, 3, 4, 5, 6, 21, 22] \<and>
   rb_out wrap4 [0, 0, 0, 0, 0] 4 = Some (wrap4\<lparr>r_out := 10\<rparr>, [21, 22, 23, 24, 0], 4) \<and>
   take 4 [21, 22, 23, 24, 0 :: u8] = [21, 22, 23, 24]"
proof -
  have e: "rb_is_empty spent6 = 1" by (simp add: spent6_def rb_is_empty_def)
  have u: "length [21, 22, 23, 24 :: u8] \<le> unat (rb_unused spent6)"
    by (simp add: spent6_def rb_unused_def)
  have l: "length [21, 22, 23, 24 :: u8] \<le> length [0, 0, 0, 0, 0 :: u8]" by simp
  from roundtrip_from_empty [OF reachable_spent6 e u l] show ?thesis
    using reachable_spent6 e u by (simp add: write_wrap4) (simp add: wrap4_def rb_eval)
qed

section \<open>Conservation\<close>

text \<open>
  A step keeps the balance \<open>rb_avail + R = W\<close> between the occupancy and the unbounded
  counters of bytes written and read, although the cursors are 32-bit words.
\<close>

lemma step_conserves:
  assumes inv: "rb_ok r0 \<or> rb_degenerate r0"
    and bal: "unat (rb_avail r0) + R0 = W0"
    and st: "step (r0, W0, R0) c = Some (r, W, R)"
  shows "(rb_ok r \<or> rb_degenerate r) \<and> unat (rb_avail r) + R = W"
proof (cases "rb_degenerate r0")
  case True
  then show ?thesis
    using st bal inv
    by (cases c) (auto simp: rb_degenerate_in rb_degenerate_out rb_degenerate_peek)
next
  case False
  with inv have ok: "rb_ok r0" by simp
  show ?thesis
  proof (cases c)
    case (Write buf len)
    with st obtain n where s: "rb_in r0 buf len = Some (r, n)" and W: "W = W0 + unat n" "R = R0"
      by (auto split: option.splits)
    from rb_in_ok [OF ok rb_in_Some_fit [OF s]] s W bal show ?thesis by auto
  next
    case (Read buf len)
    with st obtain n b where s: "rb_out r0 buf len = Some (r, b, n)"
        and W: "W = W0" "R = R0 + unat n"
      by (auto split: option.splits)
    have "unat (min_u32 len (rb_avail r0)) \<le> unat (rb_avail r0)"
      by (simp add: unat_min_u32)
    with rb_out_ok [OF ok rb_out_Some_fit [OF s]] s W bal show ?thesis by auto
  next
    case (Peek buf len)
    with st obtain b where "rb_peek r0 buf len = Some (r, b)" and W: "W = W0" "R = R0"
      by (auto split: option.splits)
    then have "r = r0" using rb_peek_state by blast
    then show ?thesis using inv bal W by simp
  qed
qed

lemma run_conserves:
  "rb_ok r0 \<or> rb_degenerate r0 \<Longrightarrow> unat (rb_avail r0) + R0 = W0 \<Longrightarrow>
   run (r0, W0, R0) cs = Some (r, W, R) \<Longrightarrow>
   (rb_ok r \<or> rb_degenerate r) \<and> unat (rb_avail r) + R = W"
proof (induction cs arbitrary: r0 W0 R0)
  case Nil
  then show ?case by simp
next
  case (Cons c cs)
  from Cons.prems(3) obtain r1 W1 R1 where
      s: "step (r0, W0, R0) c = Some (r1, W1, R1)" and rest: "run (r1, W1, R1) cs = Some (r, W, R)"
    by (auto split: option.splits)
  from step_conserves [OF Cons.prems(1,2) s]
  show ?case using Cons.IH [OF _ _ rest] by blast
qed

text \<open>
  Claim C7. From a reachable empty buffer, after any sequence of calls in which \<open>rb_in\<close>
  has reported \<open>W\<close> bytes written and \<open>rb_out\<close> has reported \<open>R\<close> bytes read in total,
  \<open>R \<le> W\<close> and \<open>rb_avail = W - R\<close>. \<open>W\<close> and \<open>R\<close> are natural numbers, not bounded by
  \<open>2 ^ 32\<close>; the cursors are words and wrap.
\<close>

theorem conservation:
  assumes "reachable r0" and "rb_is_empty r0 = 1"
    and "run (r0, 0, 0) cs = Some (r, W, R)"
  shows "R \<le> W \<and> unat (rb_avail r) = W - R"
proof -
  from assms(2) have "rb_avail r0 = 0"
    by (simp add: rb_is_empty_def rb_avail_def split: if_splits)
  then have "unat (rb_avail r0) + 0 = 0" by simp
  from run_conserves [OF reachable_inv [OF assms(1)] this assms(3)]
  show ?thesis by arith
qed

theorem conservation_witness:
  "reachable empty8 \<and> rb_is_empty empty8 = 1 \<and>
   run (empty8, 0, 0)
     [Write [1, 2, 3, 4, 5, 6] 6, Read [0, 0, 0, 0, 0, 0] 6, Write [21, 22, 23, 24] 4,
      Peek [0, 0, 0] 3, Read [0, 0, 0] 3] = Some (wrap4\<lparr>r_out := 9\<rparr>, 10, 9) \<and>
   (9 :: nat) \<le> 10 \<and> unat (rb_avail (wrap4\<lparr>r_out := 9\<rparr>)) = 10 - 9"
proof -
  have e: "rb_is_empty empty8 = 1" by (simp add: empty8_def rb_is_empty_def)
  have r: "run (empty8, 0, 0)
     [Write [1, 2, 3, 4, 5, 6] 6, Read [0, 0, 0, 0, 0, 0] 6, Write [21, 22, 23, 24] 4,
      Peek [0, 0, 0] 3, Read [0, 0, 0] 3] = Some (wrap4\<lparr>r_out := 9\<rparr>, 10, 9)"
    by (simp add: write_held6 read_spent6 write_wrap4) (simp add: wrap4_def rb_eval)
  from conservation [OF reachable_empty8 e r] show ?thesis
    using reachable_empty8 e r by simp
qed

text \<open>
  The same balance over a wrap of the cursors: from \<open>last8\<close>, whose cursors are
  \<open>2 ^ 32 - 2\<close>, writing four bytes and reading three leaves \<open>in = 2\<close>, \<open>out = 1\<close> and one
  byte in the buffer.
\<close>

lemma balance_over_cursor_wrap:
  "rb_ok last8 \<and>
   run (last8, 0, 0) [Write [1, 2, 3, 4] 4, Read [0, 0, 0] 3] = Some (past8, 4, 3) \<and>
   unat (rb_avail past8) = 4 - 3"
  by (simp add: last8_def past8_def rb_ok_def rb_eval)

end
